theory Spec2Isabelle
  imports Main "HOL-Library.Word" "HOL-Library.Multiset"
begin

section \<open>The JNI bridge of native-lib.cpp\<close>

text \<open>
  The file \<^verbatim>\<open>native-lib.cpp\<close> exports five JNI entry points. Each is embedded
  here under the last component of its C++ name. The managed side is a heap of
  objects, native integers are 32-bit words, native strings are byte lists.
\<close>

subsection \<open>Primitive types\<close>

type_synonym jint = "32 word"
type_synonym jchar = "16 word"
type_synonym cchar = "8 word"

text \<open>The byte and the code unit with a given value.\<close>

definition byte_of :: "nat \<Rightarrow> cchar" where
  "byte_of n = of_nat n"

definition code_unit :: "nat \<Rightarrow> jchar" where
  "code_unit n = of_nat n"

subsection \<open>Faults\<close>

text \<open>
  JNI reports nothing when it is misused: the process aborts or goes on with
  garbage. Each such place is a fault value of the model.
\<close>

datatype jni_fault =
    NullReference
  | WrongClass
  | NoSuchMember
  | MalformedUTF
  | OutOfBounds

subsection \<open>The summation loop\<close>

text \<open>
  \<^verbatim>\<open>for (int i=0; i<length;i++ ){ sum = sum + elements[i]; }\<close>
  with \<^verbatim>\<open>i\<close>, \<^verbatim>\<open>length\<close> and \<^verbatim>\<open>sum\<close> of type \<^verbatim>\<open>int\<close>: the comparison is
  signed, the buffer is read at index \<^verbatim>\<open>i\<close>. The arguments are the buffer,
  the length, the index and the running sum (\<open>len\<close> and \<open>acc\<close>, since \<open>length\<close>
  and \<open>sum\<close> are constants of HOL). A read outside the buffer is a fault of the
  model.
\<close>

function array_loop :: "jint list \<Rightarrow> jint \<Rightarrow> jint \<Rightarrow> jint \<Rightarrow> jni_fault + jint" where
  "array_loop elements len i acc =
     (if sint i < sint len then
        (if 0 \<le> sint i \<and> nat (sint i) < length elements
         then array_loop elements len (i + 1) (acc + elements ! nat (sint i))
         else Inl OutOfBounds)
      else Inr acc)"
  by pat_completeness auto

termination array_loop
proof (relation "measure (\<lambda>(elements, len, i, acc). nat (sint len - sint i))")
  show "wf (measure (\<lambda>(elements, len, i, acc). nat (sint len - sint i)))"
    by simp
next
  fix elements :: "jint list" and len i acc :: jint
  assume below: "sint i < sint len"
  have "sint len < 2 ^ 31"
    using sint_lt [of len] by simp
  moreover have "- (2 ^ 31) \<le> sint i"
    using sint_ge [of i] by simp
  ultimately have "signed_take_bit 31 (sint i + 1) = sint i + 1"
    using below by (intro signed_take_bit_int_eq_self) auto
  then have "sint (i + 1) = sint i + 1"
    by (simp add: sint_word_ariths)
  then show "((elements, len, i + 1, acc + elements ! nat (sint i)), (elements, len, i, acc))
             \<in> measure (\<lambda>(elements, len, i, acc). nat (sint len - sint i))"
    using below by simp
qed

declare array_loop.simps [simp del]

subsection \<open>The managed heap seen through JNI\<close>

text \<open>
  A JNI reference is \<^verbatim>\<open>NULL\<close> or names an object of the managed heap. The heap
  is the list of the objects allocated so far; a new object is appended, so
  its reference is fresh. The environment pointer \<^verbatim>\<open>env\<close> gives access to that
  heap, and every JNI function below takes the heap in its place. The JNI
  functions belong to the Java runtime, not to this repository; each is
  written after its description in the JNI specification.
\<close>

type_synonym jobject = "nat option"
type_synonym jstring = jobject
type_synonym jintArray = jobject

datatype jclass = IntArrayClass | StringClass | PersonClass

text \<open>
  Modelled from the spec: the Java class \<^verbatim>\<open>Person\<close> is not part of the native
  source. The spec gives it two fields, \<^verbatim>\<open>name\<close> (a text value) and \<^verbatim>\<open>age\<close>
  (a 32-bit scalar); the native code looks them up with the signatures
  \<^verbatim>\<open>Ljava/lang/String;\<close> and \<^verbatim>\<open>I\<close> and calls the constructor
  \<^verbatim>\<open>(Ljava/lang/String;I)V\<close>, which the spec describes as building the record
  from the two values.
\<close>

datatype object =
    IntArrayObj "jint list"
  | StringObj "jchar list"
  | PersonObj jstring jint

type_synonym JNIEnv = "object list"

definition deref :: "JNIEnv \<Rightarrow> jobject \<Rightarrow> jni_fault + object" where
  "deref env r =
     (case r of
        None \<Rightarrow> Inl NullReference
      | Some k \<Rightarrow> if k < length env then Inr (env ! k) else Inl NullReference)"

definition new_object :: "JNIEnv \<Rightarrow> object \<Rightarrow> jobject \<times> JNIEnv" where
  "new_object env obj = (Some (length env), env @ [obj])"

subsection \<open>Arrays\<close>

text \<open>
  \<^verbatim>\<open>GetIntArrayElements\<close> hands out the elements of the array as a native
  buffer, \<^verbatim>\<open>GetArrayLength\<close> its length as a \<^verbatim>\<open>jsize\<close>.
  \<^verbatim>\<open>ReleaseIntArrayElements\<close> ends the borrowing: mode \<^verbatim>\<open>0\<close> and
  \<^verbatim>\<open>JNI_COMMIT\<close> copy the buffer back into the array, \<^verbatim>\<open>JNI_ABORT\<close> drops it.
\<close>

datatype release_mode = JNI_COPY_AND_FREE | JNI_COMMIT | JNI_ABORT

definition GetIntArrayElements :: "JNIEnv \<Rightarrow> jintArray \<Rightarrow> jni_fault + jint list" where
  "GetIntArrayElements env array =
     (case deref env array of
        Inl e \<Rightarrow> Inl e
      | Inr (IntArrayObj xs) \<Rightarrow> Inr xs
      | Inr _ \<Rightarrow> Inl WrongClass)"

definition GetArrayLength :: "JNIEnv \<Rightarrow> jintArray \<Rightarrow> jni_fault + jint" where
  "GetArrayLength env array =
     (case deref env array of
        Inl e \<Rightarrow> Inl e
      | Inr (IntArrayObj xs) \<Rightarrow> Inr (of_nat (length xs))
      | Inr _ \<Rightarrow> Inl WrongClass)"

definition ReleaseIntArrayElements ::
  "JNIEnv \<Rightarrow> jintArray \<Rightarrow> jint list \<Rightarrow> release_mode \<Rightarrow> JNIEnv" where
  "ReleaseIntArrayElements env array elems mode =
     (case mode of
        JNI_ABORT \<Rightarrow> env
      | _ \<Rightarrow> (case array of None \<Rightarrow> env | Some k \<Rightarrow> env[k := IntArrayObj elems]))"

subsection \<open>Strings\<close>

text \<open>
  JNI exchanges strings in modified UTF-8. A Java string is a sequence of
  16-bit code units; each unit from 1 to 0x7F is one byte, zero and the units
  up to 0x7FF are two bytes, the others three (a character outside the basic
  plane is two surrogate code units, encoded one by one). No byte of an
  encoding is zero, so the result is a C string.
\<close>

definition utf_encode_char :: "jchar \<Rightarrow> cchar list" where
  "utf_encode_char c =
     (if 1 \<le> unat c \<and> unat c \<le> 0x7F then [byte_of (unat c)]
      else if unat c \<le> 0x7FF then
        [byte_of (0xC0 + unat c div 64), byte_of (0x80 + unat c mod 64)]
      else
        [byte_of (0xE0 + unat c div 4096), byte_of (0x80 + unat c div 64 mod 64),
         byte_of (0x80 + unat c mod 64)])"

definition utf_encode :: "jchar list \<Rightarrow> cchar list" where
  "utf_encode cs = concat (map utf_encode_char cs)"

definition is_continuation :: "cchar \<Rightarrow> bool" where
  "is_continuation b \<longleftrightarrow> 0x80 \<le> unat b \<and> unat b < 0xC0"

text \<open>
  Decoding follows the lead byte. Bytes that are not modified UTF-8 (a
  continuation byte in lead position, a lead byte without its continuation
  bytes, a byte from 0xF0 on) have no decoding: JNI leaves the outcome open.
\<close>

fun utf_decode :: "cchar list \<Rightarrow> jchar list option" where
  "utf_decode [] = Some []"
| "utf_decode (b # bs) =
     (if 1 \<le> unat b \<and> unat b < 0x80 then
        map_option ((#) (code_unit (unat b))) (utf_decode bs)
      else if 0xC0 \<le> unat b \<and> unat b < 0xE0 then
        (case bs of
           b2 # bs' \<Rightarrow>
             if is_continuation b2 then
               map_option ((#) (code_unit ((unat b - 0xC0) * 64 + (unat b2 - 0x80))))
                 (utf_decode bs')
             else None
         | _ \<Rightarrow> None)
      else if 0xE0 \<le> unat b \<and> unat b < 0xF0 then
        (case bs of
           b2 # b3 # bs' \<Rightarrow>
             if is_continuation b2 \<and> is_continuation b3 then
               map_option
                 ((#) (code_unit ((unat b - 0xE0) * 4096 + (unat b2 - 0x80) * 64
                                  + (unat b3 - 0x80))))
                 (utf_decode bs')
             else None
         | _ \<Rightarrow> None)
      else None)"

text \<open>A C string ends at its first zero byte.\<close>

definition c_chars :: "cchar list \<Rightarrow> cchar list" where
  "c_chars p = takeWhile (\<lambda>b. b \<noteq> 0) p"

definition GetStringUTFChars :: "JNIEnv \<Rightarrow> jstring \<Rightarrow> jni_fault + cchar list" where
  "GetStringUTFChars env s =
     (case deref env s of
        Inl e \<Rightarrow> Inl e
      | Inr (StringObj cs) \<Rightarrow> Inr (utf_encode cs)
      | Inr _ \<Rightarrow> Inl WrongClass)"

definition ReleaseStringUTFChars :: "JNIEnv \<Rightarrow> jstring \<Rightarrow> cchar list \<Rightarrow> JNIEnv" where
  "ReleaseStringUTFChars env s chars = env"

definition NewStringUTF :: "JNIEnv \<Rightarrow> cchar list \<Rightarrow> jni_fault + (jstring \<times> JNIEnv)" where
  "NewStringUTF env bytes =
     (case utf_decode (c_chars bytes) of
        None \<Rightarrow> Inl MalformedUTF
      | Some cs \<Rightarrow> Inr (new_object env (StringObj cs)))"

subsection \<open>Fields, methods and construction\<close>

text \<open>
  Modelled from the spec: the members of the Java class \<^verbatim>\<open>Person\<close>, which is
  not part of the native source. They are the fields \<^verbatim>\<open>name\<close> and \<^verbatim>\<open>age\<close>
  under the signatures the native code asks for, and the constructor, which
  stores its two arguments in the two fields of a new object.
\<close>

datatype jfieldID = NameField | AgeField

datatype jmethodID = PersonInit

definition GetObjectClass :: "JNIEnv \<Rightarrow> jobject \<Rightarrow> jni_fault + jclass" where
  "GetObjectClass env obj =
     (case deref env obj of
        Inl e \<Rightarrow> Inl e
      | Inr (IntArrayObj _) \<Rightarrow> Inr IntArrayClass
      | Inr (StringObj _) \<Rightarrow> Inr StringClass
      | Inr (PersonObj _ _) \<Rightarrow> Inr PersonClass)"

definition GetFieldID :: "jclass \<Rightarrow> string \<Rightarrow> string \<Rightarrow> jni_fault + jfieldID" where
  "GetFieldID cls nm sig =
     (if cls = PersonClass \<and> nm = ''name'' \<and> sig = ''Ljava/lang/String;'' then Inr NameField
      else if cls = PersonClass \<and> nm = ''age'' \<and> sig = ''I'' then Inr AgeField
      else Inl NoSuchMember)"

definition GetMethodID :: "jclass \<Rightarrow> string \<Rightarrow> string \<Rightarrow> jni_fault + jmethodID" where
  "GetMethodID cls nm sig =
     (if cls = PersonClass \<and> nm = ''<init>'' \<and> sig = ''(Ljava/lang/String;I)V''
      then Inr PersonInit else Inl NoSuchMember)"

definition GetObjectField :: "JNIEnv \<Rightarrow> jobject \<Rightarrow> jfieldID \<Rightarrow> jni_fault + jobject" where
  "GetObjectField env obj fld =
     (case deref env obj of
        Inl e \<Rightarrow> Inl e
      | Inr (PersonObj n a) \<Rightarrow> if fld = NameField then Inr n else Inl NoSuchMember
      | Inr _ \<Rightarrow> Inl WrongClass)"

definition GetIntField :: "JNIEnv \<Rightarrow> jobject \<Rightarrow> jfieldID \<Rightarrow> jni_fault + jint" where
  "GetIntField env obj fld =
     (case deref env obj of
        Inl e \<Rightarrow> Inl e
      | Inr (PersonObj n a) \<Rightarrow> if fld = AgeField then Inr a else Inl NoSuchMember
      | Inr _ \<Rightarrow> Inl WrongClass)"

definition NewObject ::
  "JNIEnv \<Rightarrow> jclass \<Rightarrow> jmethodID \<Rightarrow> jstring \<Rightarrow> jint \<Rightarrow> jni_fault + (jobject \<times> JNIEnv)" where
  "NewObject env cls ctor arg1 arg2 =
     (if cls = PersonClass \<and> ctor = PersonInit
      then Inr (new_object env (PersonObj arg1 arg2))
      else Inl NoSuchMember)"

subsection \<open>The C++ standard library\<close>

text \<open>
  \<^verbatim>\<open>std::to_string(int)\<close> prints as \<^verbatim>\<open>%d\<close> does: the decimal digits, most
  significant first, after a minus sign for a negative value.
\<close>

fun digits :: "nat \<Rightarrow> cchar list" where
  "digits n =
     (if n < 10 then [byte_of (48 + n)]
      else digits (n div 10) @ [byte_of (48 + n mod 10)])"

declare digits.simps [simp del]

definition to_string :: "jint \<Rightarrow> cchar list" where
  "to_string v =
     (if sint v < 0 then byte_of 45 # digits (nat (- sint v)) else digits (nat (sint v)))"

text \<open>\<^verbatim>\<open>static_cast<int>\<close> of a \<^verbatim>\<open>size_t\<close> keeps the low 32 bits.\<close>

definition static_cast_int :: "nat \<Rightarrow> jint" where
  "static_cast_int n = of_nat n"

text \<open>\<^verbatim>\<open>struct Person { std::string name; int age; };\<close>\<close>

record Person =
  name :: "cchar list"
  age :: jint

subsection \<open>The five entry points\<close>

text \<open>
  Each takes the environment and the receiver \<^verbatim>\<open>thiz\<close> before its own
  arguments. The two scalar functions return \<^verbatim>\<open>a + b\<close> and \<^verbatim>\<open>a - b\<close> on
  \<^verbatim>\<open>jint\<close>; the others return a value together with the heap they leave.
\<close>

definition calculateSum :: "JNIEnv \<Rightarrow> jobject \<Rightarrow> jint \<Rightarrow> jint \<Rightarrow> jint" where
  "calculateSum env thiz a b = a + b"

definition calculateDifference :: "JNIEnv \<Rightarrow> jobject \<Rightarrow> jint \<Rightarrow> jint \<Rightarrow> jint" where
  "calculateDifference env thiz a b = a - b"

definition CalculateArrySum ::
  "JNIEnv \<Rightarrow> jobject \<Rightarrow> jintArray \<Rightarrow> jni_fault + (jint \<times> JNIEnv)" where
  "CalculateArrySum env thiz array =
     (case GetIntArrayElements env array of
        Inl e \<Rightarrow> Inl e
      | Inr elements \<Rightarrow>
     (case GetArrayLength env array of
        Inl e \<Rightarrow> Inl e
      | Inr len \<Rightarrow>
     (case array_loop elements len 0 0 of
        Inl e \<Rightarrow> Inl e
      | Inr result \<Rightarrow>
          Inr (result, ReleaseIntArrayElements env array elements JNI_ABORT))))"

definition ReversesString ::
  "JNIEnv \<Rightarrow> jobject \<Rightarrow> jstring \<Rightarrow> jni_fault + (jstring \<times> JNIEnv)" where
  "ReversesString env thiz input =
     (case GetStringUTFChars env input of
        Inl e \<Rightarrow> Inl e
      | Inr inputChars \<Rightarrow>
          let inputStr = c_chars inputChars;
              reversed = rev inputStr;
              env1 = ReleaseStringUTFChars env input inputChars
          in NewStringUTF env1 reversed)"

definition swapPersonAttributes ::
  "JNIEnv \<Rightarrow> jobject \<Rightarrow> jobject \<Rightarrow> jni_fault + (jobject \<times> JNIEnv)" where
  "swapPersonAttributes env thiz person =
     (case GetObjectClass env person of
        Inl e \<Rightarrow> Inl e
      | Inr personClass \<Rightarrow>
     (case GetFieldID personClass ''name'' ''Ljava/lang/String;'' of
        Inl e \<Rightarrow> Inl e
      | Inr nameField \<Rightarrow>
     (case GetFieldID personClass ''age'' ''I'' of
        Inl e \<Rightarrow> Inl e
      | Inr ageField \<Rightarrow>
     (case GetObjectField env person nameField of
        Inl e \<Rightarrow> Inl e
      | Inr nameJString \<Rightarrow>
     (case GetStringUTFChars env nameJString of
        Inl e \<Rightarrow> Inl e
      | Inr nameChars \<Rightarrow>
     (let nameStr = c_chars nameChars;
          env1 = ReleaseStringUTFChars env nameJString nameChars
      in
     (case GetIntField env1 person ageField of
        Inl e \<Rightarrow> Inl e
      | Inr ageVal \<Rightarrow>
     (let swappedPerson = \<lparr>name = to_string ageVal, age = static_cast_int (length nameStr)\<rparr>
      in
     (case GetMethodID personClass ''<init>'' ''(Ljava/lang/String;I)V'' of
        Inl e \<Rightarrow> Inl e
      | Inr constructor \<Rightarrow>
     (case NewStringUTF env1 (name swappedPerson) of
        Inl e \<Rightarrow> Inl e
      | Inr (swappedNameJString, env2) \<Rightarrow>
          NewObject env2 personClass constructor swappedNameJString
            (age swappedPerson)))))))))))"

subsection \<open>Reading the heap\<close>

text \<open>What a reference denotes: the elements, the code units, the two fields.\<close>

definition int_array_at :: "JNIEnv \<Rightarrow> jobject \<Rightarrow> jint list option" where
  "int_array_at env r = (case deref env r of Inr (IntArrayObj xs) \<Rightarrow> Some xs | _ \<Rightarrow> None)"

definition string_at :: "JNIEnv \<Rightarrow> jobject \<Rightarrow> jchar list option" where
  "string_at env r = (case deref env r of Inr (StringObj cs) \<Rightarrow> Some cs | _ \<Rightarrow> None)"

definition person_at :: "JNIEnv \<Rightarrow> jobject \<Rightarrow> (jchar list \<times> jint) option" where
  "person_at env r =
     (case deref env r of
        Inr (PersonObj n a) \<Rightarrow> map_option (\<lambda>cs. (cs, a)) (string_at env n)
      | _ \<Rightarrow> None)"

text \<open>The code units that modified UTF-8 writes as one byte.\<close>

definition is_ascii :: "jchar \<Rightarrow> bool" where
  "is_ascii c \<longleftrightarrow> 1 \<le> unat c \<and> unat c \<le> 0x7F"

text \<open>
  The number a decimal string denotes: the digits read most significant
  first, negated after a leading minus sign.
\<close>

definition decimal_value :: "cchar list \<Rightarrow> nat" where
  "decimal_value ds = foldl (\<lambda>v d. 10 * v + (unat d - 48)) 0 ds"

definition decimal_int :: "cchar list \<Rightarrow> int" where
  "decimal_int bs =
     (case bs of
        [] \<Rightarrow> 0
      | b # ds \<Rightarrow> if b = byte_of 45 then - int (decimal_value ds) else int (decimal_value bs))"

text \<open>A Java string literal: one code unit for each character.\<close>

definition jstr :: "string \<Rightarrow> jchar list" where
  "jstr s = map (\<lambda>c. code_unit (of_char c)) s"

text \<open>Bytes that stand for themselves, and the bytes of the decimal digits.\<close>

definition ascii_byte :: "cchar \<Rightarrow> bool" where
  "ascii_byte b \<longleftrightarrow> 1 \<le> unat b \<and> unat b < 0x80"

definition digit_byte :: "cchar \<Rightarrow> bool" where
  "digit_byte b \<longleftrightarrow> 48 \<le> unat b \<and> unat b \<le> 57"

section \<open>Facts about the model\<close>

subsection \<open>Words\<close>

lemma sint_mod_2p32:
  fixes w :: jint
  shows "sint w mod 2 ^ 32 = uint w"
  by (simp add: uint_sint take_bit_eq_mod)

lemma sint_of_nat_small:
  assumes "n < 2 ^ 31"
  shows "sint (of_nat n :: jint) = int n"
proof -
  have "sint (of_nat n :: jint) = signed_take_bit 31 (int n)"
    by (simp add: signed_of_nat)
  also have "\<dots> = int n"
    using assms by (intro signed_take_bit_int_eq_self) auto
  finally show ?thesis .
qed

lemma sint_of_nat_le: "sint (of_nat n :: jint) \<le> int n"
proof -
  have "sint (of_nat n :: jint) = signed_take_bit 31 (int n)"
    by (simp add: signed_of_nat)
  also have "\<dots> \<le> int n"
    by (simp add: signed_take_bit_int_less_eq_self_iff)
  finally show ?thesis .
qed

lemma sint_jint_less: "sint (w :: jint) < 2 ^ 31"
  using sint_lt [of w] by simp

lemma unat_byte_of: "k < 256 \<Longrightarrow> unat (byte_of k) = k"
  by (simp add: byte_of_def unat_of_nat)

lemma unat_code_unit: "k < 65536 \<Longrightarrow> unat (code_unit k) = k"
  by (simp add: code_unit_def unat_of_nat)

lemma code_unit_unat: "code_unit (unat c) = c"
  by (simp add: code_unit_def)

lemma unat_jchar_less: "unat (c :: jchar) < 65536"
  using unsigned_less [of c, where 'a = nat] by simp

lemma unat_cchar_less: "unat (b :: cchar) < 256"
  using unsigned_less [of b, where 'a = nat] by simp

subsection \<open>The summation loop\<close>

lemma array_loop_stop:
  "\<not> sint i < sint len \<Longrightarrow> array_loop elements len i acc = Inr acc"
  by (subst array_loop.simps) simp

lemma array_loop_step:
  "sint i < sint len \<Longrightarrow> 0 \<le> sint i \<Longrightarrow> nat (sint i) < length elements \<Longrightarrow>
   array_loop elements len i acc =
   array_loop elements len (i + 1) (acc + elements ! nat (sint i))"
  by (subst array_loop.simps) simp

lemma array_loop_from:
  assumes "sint len \<le> int (length xs)"
  shows "int k \<le> sint len \<Longrightarrow> m = nat (sint len) - k \<Longrightarrow>
         array_loop xs len (of_nat k) acc = Inr (acc + sum_list (take m (drop k xs)))"
proof (induction m arbitrary: k acc)
  case 0
  have klt: "k < 2 ^ 31"
    using "0.prems"(1) sint_jint_less [of len] by (simp add: nat_less_iff)
  have "sint (of_nat k :: jint) = int k"
    using klt by (rule sint_of_nat_small)
  moreover have "int k = sint len"
    using "0.prems" by simp
  ultimately show ?case
    by (simp add: array_loop_stop)
next
  case (Suc m)
  have klt: "k < 2 ^ 31"
    using Suc.prems(1) sint_jint_less [of len] by (simp add: nat_less_iff)
  have sk: "sint (of_nat k :: jint) = int k"
    using klt by (rule sint_of_nat_small)
  have less: "int k < sint len"
    using Suc.prems by linarith
  have inr: "k < length xs"
    using less assms by linarith
  have step: "array_loop xs len (of_nat k) acc
              = array_loop xs len (of_nat (Suc k)) (acc + xs ! k)"
    using array_loop_step [of "of_nat k" len xs acc] sk less inr
    by (simp add: add.commute)
  have ih: "array_loop xs len (of_nat (Suc k)) (acc + xs ! k)
            = Inr (acc + xs ! k + sum_list (take m (drop (Suc k) xs)))"
    using Suc.prems less by (intro Suc.IH) auto
  have "take (Suc m) (drop k xs) = xs ! k # take m (drop (Suc k) xs)"
    using inr by (simp add: Cons_nth_drop_Suc [symmetric])
  then show ?case
    using step ih by (simp add: add.assoc)
qed

lemma array_loop_all:
  "array_loop xs (of_nat (length xs)) 0 0
   = Inr (sum_list (take (nat (sint (of_nat (length xs) :: jint))) xs))"
proof (cases "0 \<le> sint (of_nat (length xs) :: jint)")
  case True
  then show ?thesis
    using array_loop_from [of "of_nat (length xs)" xs 0 _ 0, OF sint_of_nat_le] by simp
next
  case False
  then show ?thesis
    by (simp add: array_loop_stop)
qed

lemma array_loop_sum_list:
  "length xs < 2 ^ 31 \<Longrightarrow> array_loop xs (of_nat (length xs)) 0 0 = Inr (sum_list xs)"
  by (simp add: array_loop_all sint_of_nat_small)

lemma CalculateArrySum_run:
  assumes "int_array_at env array = Some xs"
  shows "CalculateArrySum env thiz array
         = Inr (sum_list (take (nat (sint (of_nat (length xs) :: jint))) xs), env)"
proof -
  from assms have d: "deref env array = Inr (IntArrayObj xs)"
    by (auto simp: int_array_at_def split: sum.splits object.splits)
  show ?thesis
    by (simp add: CalculateArrySum_def GetIntArrayElements_def GetArrayLength_def d
        array_loop_all ReleaseIntArrayElements_def)
qed

lemma CalculateArrySum_fault:
  assumes "int_array_at env array = None"
  shows "\<exists>e. CalculateArrySum env thiz array = Inl e"
  using assms
  by (auto simp: CalculateArrySum_def GetIntArrayElements_def GetArrayLength_def
      int_array_at_def split: sum.splits object.splits)

subsection \<open>Modified UTF-8\<close>

lemma utf_encode_char_ascii: "is_ascii c \<Longrightarrow> utf_encode_char c = [byte_of (unat c)]"
  by (simp add: utf_encode_char_def is_ascii_def)

lemma utf_encode_Nil: "utf_encode [] = []"
  by (simp add: utf_encode_def)

lemma utf_encode_Cons: "utf_encode (c # cs) = utf_encode_char c @ utf_encode cs"
  by (simp add: utf_encode_def)

lemma utf_encode_append: "utf_encode (xs @ ys) = utf_encode xs @ utf_encode ys"
  by (simp add: utf_encode_def)

lemma utf_encode_ascii:
  "list_all is_ascii cs \<Longrightarrow> utf_encode cs = map (\<lambda>c. byte_of (unat c)) cs"
  by (induction cs) (simp_all add: utf_encode_Nil utf_encode_Cons utf_encode_char_ascii)

lemma ascii_byte_of: "is_ascii c \<Longrightarrow> ascii_byte (byte_of (unat c))"
  by (simp add: is_ascii_def ascii_byte_def unat_byte_of)

lemma utf_decode_ascii_bytes:
  "list_all ascii_byte bs \<Longrightarrow> utf_decode bs = Some (map (\<lambda>b. code_unit (unat b)) bs)"
  by (induction bs) (simp_all add: ascii_byte_def)

lemma c_chars_id: "list_all (\<lambda>b. b \<noteq> 0) bs \<Longrightarrow> c_chars bs = bs"
  unfolding c_chars_def
  by (induction bs) auto

lemma byte_of_nonzero: "0 < k \<Longrightarrow> k < 256 \<Longrightarrow> byte_of k \<noteq> 0"
  using unat_byte_of [of k] by auto

lemma utf_encode_char_pos: "list_all (\<lambda>b. b \<noteq> 0) (utf_encode_char c)"
proof -
  have "unat c div 4096 < 16" using unat_jchar_less [of c] by simp
  then show ?thesis
    by (simp add: utf_encode_char_def byte_of_nonzero)
qed

lemma utf_encode_pos: "list_all (\<lambda>b. b \<noteq> 0) (utf_encode cs)"
  by (induction cs) (simp_all add: utf_encode_Nil utf_encode_Cons utf_encode_char_pos)

lemma c_chars_utf_encode: "c_chars (utf_encode cs) = utf_encode cs"
  by (rule c_chars_id [OF utf_encode_pos])

lemma c_chars_rev_utf_encode: "c_chars (rev (utf_encode cs)) = rev (utf_encode cs)"
  using utf_encode_pos [of cs] by (intro c_chars_id) (simp add: list_all_iff)

lemma length_utf_encode_char:
  "length (utf_encode_char c) = (if is_ascii c then 1 else if unat c \<le> 0x7FF then 2 else 3)"
  by (simp add: utf_encode_char_def is_ascii_def)

lemma length_utf_encode_ge: "length cs \<le> length (utf_encode cs)"
  by (induction cs) (simp_all add: utf_encode_Nil utf_encode_Cons length_utf_encode_char)

lemma length_utf_encode_ascii: "list_all is_ascii cs \<Longrightarrow> length (utf_encode cs) = length cs"
  by (simp add: utf_encode_ascii)

lemma length_utf_encode_gt:
  "\<not> list_all is_ascii cs \<Longrightarrow> length cs < length (utf_encode cs)"
proof (induction cs)
  case Nil
  then show ?case by simp
next
  case (Cons c cs)
  show ?case
  proof (cases "is_ascii c")
    case True
    with Cons show ?thesis
      by (simp add: utf_encode_Cons length_utf_encode_char)
  next
    case False
    then show ?thesis
      using length_utf_encode_ge [of cs]
      by (simp add: utf_encode_Cons length_utf_encode_char)
  qed
qed

lemma utf_decode_one:
  "1 \<le> unat b \<Longrightarrow> unat b < 0x80 \<Longrightarrow>
   utf_decode (b # bs) = map_option ((#) (code_unit (unat b))) (utf_decode bs)"
  by simp

lemma utf_decode_two:
  "0xC0 \<le> unat b \<Longrightarrow> unat b < 0xE0 \<Longrightarrow> 0x80 \<le> unat b2 \<Longrightarrow> unat b2 < 0xC0 \<Longrightarrow>
   utf_decode (b # b2 # bs)
   = map_option ((#) (code_unit ((unat b - 0xC0) * 64 + (unat b2 - 0x80)))) (utf_decode bs)"
  by (simp add: is_continuation_def)

lemma utf_decode_three:
  "0xE0 \<le> unat b \<Longrightarrow> unat b < 0xF0 \<Longrightarrow> 0x80 \<le> unat b2 \<Longrightarrow> unat b2 < 0xC0 \<Longrightarrow>
   0x80 \<le> unat b3 \<Longrightarrow> unat b3 < 0xC0 \<Longrightarrow>
   utf_decode (b # b2 # b3 # bs)
   = map_option ((#) (code_unit ((unat b - 0xE0) * 4096 + (unat b2 - 0x80) * 64
                                  + (unat b3 - 0x80)))) (utf_decode bs)"
  by (simp add: is_continuation_def)

lemma utf_decode_bad_lead:
  "0x80 \<le> unat b \<Longrightarrow> unat b < 0xC0 \<Longrightarrow> utf_decode (b # bs) = None"
  by simp

lemma utf_decode_encode_two:
  assumes "\<not> is_ascii c" "unat c \<le> 0x7FF"
  shows "utf_decode (utf_encode_char c @ bs) = map_option ((#) c) (utf_decode bs)"
proof -
  define n where "n = unat c"
  define b1 where "b1 = byte_of (0xC0 + n div 64)"
  define b2 where "b2 = byte_of (0x80 + n mod 64)"
  have enc: "utf_encode_char c = [b1, b2]"
    using assms by (simp add: utf_encode_char_def is_ascii_def n_def b1_def b2_def)
  have d: "n div 64 < 32" using assms by (simp add: n_def)
  have u1: "unat b1 = 0xC0 + n div 64"
    unfolding b1_def using d by (intro unat_byte_of) simp
  have u2: "unat b2 = 0x80 + n mod 64"
    unfolding b2_def by (intro unat_byte_of) simp
  have "utf_decode (b1 # b2 # bs)
        = map_option ((#) (code_unit ((unat b1 - 0xC0) * 64 + (unat b2 - 0x80)))) (utf_decode bs)"
    using d by (intro utf_decode_two) (simp_all add: u1 u2)
  moreover have "(unat b1 - 0xC0) * 64 + (unat b2 - 0x80) = n"
    by (simp add: u1 u2)
  ultimately show ?thesis
    by (simp add: enc n_def code_unit_unat)
qed

lemma utf_decode_encode_three:
  assumes "\<not> unat c \<le> 0x7FF"
  shows "utf_decode (utf_encode_char c @ bs) = map_option ((#) c) (utf_decode bs)"
proof -
  define n where "n = unat c"
  define b1 where "b1 = byte_of (0xE0 + n div 4096)"
  define b2 where "b2 = byte_of (0x80 + n div 64 mod 64)"
  define b3 where "b3 = byte_of (0x80 + n mod 64)"
  have enc: "utf_encode_char c = [b1, b2, b3]"
    using assms by (simp add: utf_encode_char_def n_def b1_def b2_def b3_def)
  have d: "n div 4096 < 16" using unat_jchar_less [of c] by (simp add: n_def)
  have u1: "unat b1 = 0xE0 + n div 4096"
    unfolding b1_def using d by (intro unat_byte_of) simp
  have u2: "unat b2 = 0x80 + n div 64 mod 64"
    unfolding b2_def by (intro unat_byte_of) simp
  have u3: "unat b3 = 0x80 + n mod 64"
    unfolding b3_def by (intro unat_byte_of) simp
  have "utf_decode (b1 # b2 # b3 # bs)
        = map_option ((#) (code_unit ((unat b1 - 0xE0) * 4096 + (unat b2 - 0x80) * 64
                                  + (unat b3 - 0x80)))) (utf_decode bs)"
    using d by (intro utf_decode_three) (simp_all add: u1 u2 u3)
  moreover have "(unat b1 - 0xE0) * 4096 + (unat b2 - 0x80) * 64 + (unat b3 - 0x80) = n"
  proof -
    have q: "n div 4096 = n div 64 div 64"
      by (simp add: div_mult2_eq)
    have hi: "n div 64 div 64 * 64 + n div 64 mod 64 = n div 64"
      by simp
    have lo: "n div 64 * 64 + n mod 64 = n"
      by simp
    have "n div 4096 * 4096 + n div 64 mod 64 * 64 + n mod 64 = n"
      unfolding q using hi lo by linarith
    then show ?thesis by (simp add: u1 u2 u3)
  qed
  ultimately show ?thesis
    by (simp add: enc n_def code_unit_unat)
qed

lemma utf_decode_encode_one:
  assumes "is_ascii c"
  shows "utf_decode (utf_encode_char c @ bs) = map_option ((#) c) (utf_decode bs)"
  using assms
  by (simp add: utf_encode_char_ascii unat_byte_of is_ascii_def code_unit_unat)

lemma utf_decode_encode_char:
  "utf_decode (utf_encode_char c @ bs) = map_option ((#) c) (utf_decode bs)"
  using utf_decode_encode_one utf_decode_encode_two utf_decode_encode_three by blast

lemma utf_decode_encode: "utf_decode (utf_encode cs) = Some cs"
  by (induction cs) (simp_all add: utf_encode_Nil utf_encode_Cons utf_decode_encode_char)

lemma code_unit_byte_of_ascii: "is_ascii c \<Longrightarrow> code_unit (unat (byte_of (unat c))) = c"
  by (simp add: is_ascii_def unat_byte_of code_unit_unat)

lemma ascii_bytes_of_ascii:
  "list_all is_ascii cs \<Longrightarrow> list_all ascii_byte (map (\<lambda>c. byte_of (unat c)) cs)"
  by (induction cs) (simp_all add: ascii_byte_of)

lemma ascii_byte_nonzero: "list_all ascii_byte bs \<Longrightarrow> list_all (\<lambda>b. b \<noteq> 0) bs"
  by (induction bs) (auto simp: ascii_byte_def)

lemma utf_decode_rev_encode_ascii:
  assumes "list_all is_ascii cs"
  shows "utf_decode (rev (utf_encode cs)) = Some (rev cs)"
proof -
  have "list_all is_ascii (rev cs)"
    using assms by (simp add: list_all_iff)
  then have "utf_encode (rev cs) = map (\<lambda>c. byte_of (unat c)) (rev cs)"
    by (rule utf_encode_ascii)
  then have "rev (utf_encode cs) = utf_encode (rev cs)"
    using assms by (simp add: utf_encode_ascii rev_map)
  then show ?thesis
    by (simp add: utf_decode_encode)
qed

lemma utf_decode_rev_encode_char:
  assumes "\<not> is_ascii c"
  shows "utf_decode (rev (utf_encode_char c) @ bs) = None"
proof -
  define n where "n = unat c"
  define b where "b = byte_of (0x80 + n mod 64)"
  have u: "unat b = 0x80 + n mod 64"
    unfolding b_def by (intro unat_byte_of) simp
  have "\<exists>pre. utf_encode_char c = pre @ [b]"
    using assms by (auto simp: utf_encode_char_def is_ascii_def n_def b_def)
  then obtain pre where "utf_encode_char c = pre @ [b]" ..
  then have "rev (utf_encode_char c) @ bs = b # (rev pre @ bs)"
    by simp
  moreover have "utf_decode (b # (rev pre @ bs)) = None"
    by (intro utf_decode_bad_lead) (simp_all add: u)
  ultimately show ?thesis by simp
qed

lemma utf_decode_rev_encode_non_ascii:
  "\<not> list_all is_ascii cs \<Longrightarrow> utf_decode (rev (utf_encode cs)) = None"
proof (induction cs rule: rev_induct)
  case Nil
  then show ?case by simp
next
  case (snoc c cs)
  show ?case
  proof (cases "is_ascii c")
    case True
    with snoc have "utf_decode (rev (utf_encode cs)) = None"
      by simp
    then show ?thesis
      using True
      by (simp add: utf_encode_append utf_encode_Cons utf_encode_Nil utf_encode_char_ascii
          unat_byte_of is_ascii_def)
  next
    case False
    then show ?thesis
      by (simp add: utf_encode_append utf_encode_Cons utf_encode_Nil utf_decode_rev_encode_char)
  qed
qed

subsection \<open>String reversal\<close>

lemma string_at_deref: "string_at env r = Some cs \<Longrightarrow> deref env r = Inr (StringObj cs)"
  by (auto simp: string_at_def split: sum.splits object.splits)

lemma ReversesString_buffer:
  assumes "string_at env input = Some s"
  shows "ReversesString env thiz input = NewStringUTF env (rev (utf_encode s))"
  using string_at_deref [OF assms]
  by (simp add: ReversesString_def GetStringUTFChars_def c_chars_utf_encode
      ReleaseStringUTFChars_def)

lemma NewStringUTF_rev_encode:
  "NewStringUTF env (rev (utf_encode s))
   = (case utf_decode (rev (utf_encode s)) of None \<Rightarrow> Inl MalformedUTF
      | Some cs \<Rightarrow> Inr (Some (length env), env @ [StringObj cs]))"
  by (simp add: NewStringUTF_def c_chars_rev_utf_encode new_object_def split: option.splits)

lemma ReversesString_ascii:
  assumes "string_at env input = Some s" and "list_all is_ascii s"
  shows "ReversesString env thiz input = Inr (Some (length env), env @ [StringObj (rev s)])"
  by (simp add: ReversesString_buffer [OF assms(1)] NewStringUTF_rev_encode
      utf_decode_rev_encode_ascii [OF assms(2)])

lemma ReversesString_non_ascii:
  assumes "string_at env input = Some s" and "\<not> list_all is_ascii s"
  shows "ReversesString env thiz input = Inl MalformedUTF"
  by (simp add: ReversesString_buffer [OF assms(1)] NewStringUTF_rev_encode
      utf_decode_rev_encode_non_ascii [OF assms(2)])

lemma string_at_new: "string_at (env @ [StringObj cs]) (Some (length env)) = Some cs"
  by (simp add: string_at_def deref_def)

lemma deref_append:
  "deref env r = Inr obj \<Longrightarrow> deref (env @ ext) r = Inr obj"
  by (auto simp: deref_def nth_append split: option.splits if_splits)

lemma string_at_append: "string_at env r = Some cs \<Longrightarrow> string_at (env @ ext) r = Some cs"
  using deref_append [of env r "StringObj cs" ext]
  by (simp add: string_at_deref string_at_def)

subsection \<open>Decimal strings\<close>

lemma digits_small: "n < 10 \<Longrightarrow> digits n = [byte_of (48 + n)]"
  by (subst digits.simps) simp

lemma digits_large: "\<not> n < 10 \<Longrightarrow> digits n = digits (n div 10) @ [byte_of (48 + n mod 10)]"
  by (subst digits.simps) simp

lemma digit_byte_of: "d < 10 \<Longrightarrow> digit_byte (byte_of (48 + d))"
  by (simp add: digit_byte_def unat_byte_of)

lemma digits_digit_bytes: "list_all digit_byte (digits n)"
proof (induction n rule: digits.induct)
  case (1 n)
  show ?case
  proof (cases "n < 10")
    case True
    then show ?thesis by (simp add: digits_small digit_byte_of)
  next
    case False
    with 1 show ?thesis by (simp add: digits_large digit_byte_of)
  qed
qed

lemma decimal_value_snoc:
  "decimal_value (ds @ [d]) = 10 * decimal_value ds + (unat d - 48)"
  by (simp add: decimal_value_def)

lemma decimal_value_digits: "decimal_value (digits n) = n"
proof (induction n rule: digits.induct)
  case (1 n)
  show ?case
  proof (cases "n < 10")
    case True
    then show ?thesis by (simp add: digits_small decimal_value_def unat_byte_of)
  next
    case False
    with 1 have "decimal_value (digits (n div 10)) = n div 10" by simp
    then show ?thesis
      using False by (simp add: digits_large decimal_value_snoc unat_byte_of)
  qed
qed

lemma digits_nonempty: "digits n \<noteq> []"
  by (cases "n < 10") (simp_all add: digits_small digits_large)

lemma digit_byte_not_minus: "digit_byte b \<Longrightarrow> b \<noteq> byte_of 45"
  by (auto simp: digit_byte_def unat_byte_of)

lemma decimal_int_digits: "decimal_int (digits n) = int n"
proof -
  obtain b ds where bd: "digits n = b # ds"
    using digits_nonempty [of n] by (cases "digits n") auto
  have "digit_byte b"
    using digits_digit_bytes [of n] by (simp add: bd)
  then have "b \<noteq> byte_of 45"
    by (rule digit_byte_not_minus)
  then have "decimal_int (b # ds) = int (decimal_value (b # ds))"
    by (simp add: decimal_int_def)
  then show ?thesis
    using decimal_value_digits [of n] by (simp add: bd)
qed

lemma decimal_int_to_string: "decimal_int (to_string v) = sint v"
  by (simp add: to_string_def decimal_int_digits)
    (simp add: decimal_int_def decimal_value_digits)

text \<open>The digits are canonical: no zero in front of another digit.\<close>

lemma digits_no_leading_zero:
  "digits n = b # ds \<Longrightarrow> b = byte_of 48 \<Longrightarrow> ds = []"
proof (induction n arbitrary: ds rule: digits.induct)
  case (1 n)
  show ?case
  proof (cases "n < 10")
    case True
    with "1.prems" show ?thesis by (simp add: digits_small)
  next
    case False
    have split: "digits n = digits (n div 10) @ [byte_of (48 + n mod 10)]"
      using False by (rule digits_large)
    obtain b' ds' where front: "digits (n div 10) = b' # ds'"
      using digits_nonempty [of "n div 10"] by (cases "digits (n div 10)") simp_all
    have "b' = b"
      using "1.prems"(1) unfolding split front by simp
    then have hd: "digits (n div 10) = b # ds'"
      using front by simp
    have "ds' = []"
      using "1.IH" [OF False hd "1.prems"(2)] .
    then have "decimal_value (digits (n div 10)) = 0"
      using hd "1.prems"(2) by (simp add: decimal_value_def unat_byte_of)
    then have "n div 10 = 0"
      by (simp add: decimal_value_digits)
    with False show ?thesis by simp
  qed
qed

lemma to_string_shape:
  "to_string v = (if sint v < 0 then byte_of 45 # digits (nat \<bar>sint v\<bar>) else digits (nat \<bar>sint v\<bar>))
   \<and> list_all digit_byte (digits (nat \<bar>sint v\<bar>))
   \<and> decimal_value (digits (nat \<bar>sint v\<bar>)) = nat \<bar>sint v\<bar>"
  by (simp add: to_string_def digits_digit_bytes decimal_value_digits)

lemma digit_byte_ascii: "digit_byte b \<Longrightarrow> ascii_byte b"
  by (simp add: digit_byte_def ascii_byte_def)

lemma to_string_ascii: "list_all ascii_byte (to_string v)"
proof -
  have "list_all ascii_byte (digits n)" for n
    using digits_digit_bytes [of n] by (auto simp: list_all_iff digit_byte_ascii)
  moreover have "ascii_byte (byte_of 45)"
    by (simp add: ascii_byte_def unat_byte_of)
  ultimately show ?thesis
    by (simp add: to_string_def)
qed

subsection \<open>Attribute swap\<close>

lemma NewStringUTF_ascii:
  assumes "list_all ascii_byte bs"
  shows "NewStringUTF env bs
         = Inr (Some (length env), env @ [StringObj (map (\<lambda>b. code_unit (unat b)) bs)])"
  using c_chars_id [OF ascii_byte_nonzero [OF assms]] utf_decode_ascii_bytes [OF assms]
  by (simp add: NewStringUTF_def new_object_def)

lemma person_at_deref:
  assumes "person_at env p = Some (n, a)"
  shows "\<exists>r. deref env p = Inr (PersonObj r a) \<and> deref env r = Inr (StringObj n)"
  using assms
  by (auto simp: person_at_def string_at_def split: sum.splits object.splits)

lemma swapPersonAttributes_run:
  assumes "person_at env person = Some (n, a)"
  shows "swapPersonAttributes env thiz person
         = Inr (Some (Suc (length env)),
                env @ [StringObj (map (\<lambda>b. code_unit (unat b)) (to_string a)),
                       PersonObj (Some (length env)) (static_cast_int (length (utf_encode n)))])"
proof -
  obtain r where p: "deref env person = Inr (PersonObj r a)"
    and s: "deref env r = Inr (StringObj n)"
    using person_at_deref [OF assms] by blast
  show ?thesis
    by (simp add: swapPersonAttributes_def GetObjectClass_def p GetFieldID_def
        GetObjectField_def GetStringUTFChars_def s c_chars_utf_encode
        ReleaseStringUTFChars_def GetIntField_def GetMethodID_def
        NewStringUTF_ascii [OF to_string_ascii] NewObject_def new_object_def)
qed

lemma person_at_new:
  "person_at (env @ [StringObj cs, PersonObj (Some (length env)) a]) (Some (Suc (length env)))
   = Some (cs, a)"
  by (simp add: person_at_def string_at_def deref_def nth_append)

lemma person_at_append:
  assumes "person_at env p = Some (n, a)"
  shows "person_at (env @ ext) p = Some (n, a)"
proof -
  obtain r where p: "deref env p = Inr (PersonObj r a)"
    and s: "deref env r = Inr (StringObj n)"
    using person_at_deref [OF assms] by blast
  show ?thesis
    by (simp add: person_at_def string_at_def deref_append [OF p] deref_append [OF s])
qed

section \<open>The claims\<close>

subsection \<open>Scalars\<close>

lemma sint_jint_ge: "- (2 ^ 31) \<le> sint (w :: jint)"
  using sint_ge [of w] by simp

lemma sum_mod_2p32:
  fixes a b :: jint
  shows "sint (a + b) mod 2 ^ 32 = (sint a + sint b) mod 2 ^ 32"
proof -
  have "sint (a + b) mod 2 ^ 32 = uint (a + b)"
    by (rule sint_mod_2p32)
  also have "\<dots> = (uint a + uint b) mod 2 ^ 32"
    by (simp add: uint_word_ariths)
  also have "\<dots> = (sint a mod 2 ^ 32 + sint b mod 2 ^ 32) mod 2 ^ 32"
    by (simp only: sint_mod_2p32)
  also have "\<dots> = (sint a + sint b) mod 2 ^ 32"
    by (simp only: mod_add_eq)
  finally show ?thesis .
qed

lemma diff_mod_2p32:
  fixes a b :: jint
  shows "sint (a - b) mod 2 ^ 32 = (sint a - sint b) mod 2 ^ 32"
proof -
  have "sint (a - b) mod 2 ^ 32 = uint (a - b)"
    by (rule sint_mod_2p32)
  also have "\<dots> = (uint a - uint b) mod 2 ^ 32"
    by (simp add: uint_word_ariths)
  also have "\<dots> = (sint a mod 2 ^ 32 - sint b mod 2 ^ 32) mod 2 ^ 32"
    by (simp only: sint_mod_2p32)
  also have "\<dots> = (sint a - sint b) mod 2 ^ 32"
    by (simp only: mod_diff_eq)
  finally show ?thesis .
qed

text \<open>
  Claim C3. For all 32-bit integers \<open>a\<close> and \<open>b\<close>, the sum is \<open>a + b\<close> and the
  difference is \<open>a - b\<close> modulo \<open>2\<^sup>3\<^sup>2\<close>: the result is the one value of the
  signed 32-bit range congruent to the exact result. Both functions return a
  plain \<open>jint\<close>, so no input leads to a fault.
\<close>

theorem calculateSum_calculateDifference_wrap:
  "sint (calculateSum env thiz a b) mod 2 ^ 32 = (sint a + sint b) mod 2 ^ 32
   \<and> sint (calculateDifference env thiz a b) mod 2 ^ 32 = (sint a - sint b) mod 2 ^ 32
   \<and> - (2 ^ 31) \<le> sint (calculateSum env thiz a b)
   \<and> sint (calculateSum env thiz a b) < 2 ^ 31
   \<and> - (2 ^ 31) \<le> sint (calculateDifference env thiz a b)
   \<and> sint (calculateDifference env thiz a b) < 2 ^ 31"
  unfolding calculateSum_def calculateDifference_def
  using sum_mod_2p32 [of a b] diff_mod_2p32 [of a b]
    sint_jint_ge [of "a + b"] sint_jint_less [of "a + b"]
    sint_jint_ge [of "a - b"] sint_jint_less [of "a - b"]
  by blast

text \<open>The wrap-around at the ends of the range, and the two cases of the spec.\<close>

lemma calculateSum_overflow:
  "sint (calculateSum env thiz 2147483647 1) = - 2147483648"
  by (simp add: calculateSum_def)

lemma calculateDifference_overflow:
  "sint (calculateDifference env thiz (- 2147483648) 1) = 2147483647"
  by (simp add: calculateDifference_def)

lemma calculateSum_3_5: "calculateSum env thiz 3 5 = 8"
  by (simp add: calculateSum_def)

lemma calculateDifference_10_4: "calculateDifference env thiz 10 4 = 6"
  by (simp add: calculateDifference_def)

text \<open>
  Claim C9. Subtracting \<open>b\<close> undoes adding \<open>b\<close>, and adding \<open>b\<close> undoes
  subtracting \<open>b\<close>, for all 32-bit integers, overflow included.
\<close>

theorem calculateDifference_inverts_calculateSum:
  "calculateDifference env thiz (calculateSum env thiz a b) b = a
   \<and> calculateSum env thiz (calculateDifference env thiz a b) b = a"
  by (simp add: calculateSum_def calculateDifference_def)

subsection \<open>Array sum\<close>

lemma foldl_plus_sum_list:
  fixes acc :: jint
  shows "foldl (+) acc xs = acc + sum_list xs"
  by (induction xs arbitrary: acc) (simp_all add: add.assoc)

lemma sum_list_word_of_int:
  fixes xs :: "jint list"
  shows "sum_list xs = word_of_int (\<Sum>x\<leftarrow>xs. sint x)"
  by (induction xs) simp_all

lemma sint_sum_list_mod:
  fixes xs :: "jint list"
  shows "sint (sum_list xs) mod 2 ^ 32 = (\<Sum>x\<leftarrow>xs. sint x) mod 2 ^ 32"
proof -
  have "sint (sum_list xs) mod 2 ^ 32 = uint (word_of_int (\<Sum>x\<leftarrow>xs. sint x) :: jint)"
    by (simp only: sint_mod_2p32 sum_list_word_of_int [symmetric])
  also have "\<dots> = (\<Sum>x\<leftarrow>xs. sint x) mod 2 ^ 32"
    by (simp add: uint_word_of_int)
  finally show ?thesis .
qed

lemma CalculateArrySum_sum_list:
  assumes "int_array_at env array = Some xs" and "length xs < 2 ^ 31"
  shows "CalculateArrySum env thiz array = Inr (sum_list xs, env)"
  using CalculateArrySum_run [OF assms(1), of thiz] assms(2)
  by (simp add: sint_of_nat_small)

lemma int_array_at_single: "int_array_at [IntArrayObj xs] (Some 0) = Some xs"
  by (simp add: int_array_at_def deref_def)

text \<open>
  Claim C4. For every integer sequence \<open>S\<close> held by a Java array (so shorter
  than \<open>2\<^sup>3\<^sup>1\<close>), the array sum is the left fold of wrap-around addition over
  \<open>S\<close> from the accumulator zero, which is the exact sum of the elements
  modulo \<open>2\<^sup>3\<^sup>2\<close>. The witness gives the empty sequence, whose sum is zero,
  and the case \<open>[1, 2, 3, 4]\<close> of the spec.
\<close>

theorem CalculateArrySum_is_sum:
  assumes "int_array_at env array = Some S" and "length S < 2 ^ 31"
  shows "(\<exists>env'. CalculateArrySum env thiz array = Inr (foldl (+) 0 S, env'))
         \<and> sint (foldl (+) 0 S) mod 2 ^ 32 = (\<Sum>x\<leftarrow>S. sint x) mod 2 ^ 32"
  using CalculateArrySum_sum_list [OF assms, of thiz] sint_sum_list_mod [of S]
  by (simp add: foldl_plus_sum_list)

theorem CalculateArrySum_is_sum_witness:
  "int_array_at [IntArrayObj []] (Some 0) = Some []
   \<and> length ([] :: jint list) < 2 ^ 31
   \<and> (\<exists>env'. CalculateArrySum [IntArrayObj []] None (Some 0) = Inr (0, env'))
   \<and> int_array_at [IntArrayObj [1, 2, 3, 4]] (Some 0) = Some [1, 2, 3, 4]
   \<and> length ([1, 2, 3, 4] :: jint list) < 2 ^ 31
   \<and> (\<exists>env'. CalculateArrySum [IntArrayObj [1, 2, 3, 4]] None (Some 0) = Inr (10, env'))"
proof -
  have e: "int_array_at [IntArrayObj []] (Some 0) = Some []"
    by (rule int_array_at_single)
  have f: "int_array_at [IntArrayObj [1, 2, 3, 4]] (Some 0) = Some [1, 2, 3, 4]"
    by (rule int_array_at_single)
  have le: "length ([] :: jint list) < 2 ^ 31" by simp
  have lf: "length ([1, 2, 3, 4] :: jint list) < 2 ^ 31" by simp
  show ?thesis
    using CalculateArrySum_is_sum [OF e le, of None] CalculateArrySum_is_sum [OF f lf, of None]
      e f
    by simp
qed

text \<open>
  Claim C5. The array sum returns the heap it was given: the array keeps its
  elements, and so does every other object. The borrowed view is released with
  \<^verbatim>\<open>JNI_ABORT\<close>, which leaves the heap alone whatever the view holds by then.
\<close>

theorem CalculateArrySum_leaves_heap:
  assumes "int_array_at env array = Some S"
  shows "(\<exists>v. CalculateArrySum env thiz array = Inr (v, env))
         \<and> ReleaseIntArrayElements env array view JNI_ABORT = env"
  using CalculateArrySum_run [OF assms, of thiz]
  by (simp add: ReleaseIntArrayElements_def)

theorem CalculateArrySum_leaves_heap_witness:
  "int_array_at [IntArrayObj [1, 2, 3, 4]] (Some 0) = Some [1, 2, 3, 4]
   \<and> (\<exists>v. CalculateArrySum [IntArrayObj [1, 2, 3, 4]] None (Some 0)
            = Inr (v, [IntArrayObj [1, 2, 3, 4]]))
   \<and> ReleaseIntArrayElements [IntArrayObj [1, 2, 3, 4]] (Some 0) [9, 9, 9, 9] JNI_ABORT
       = [IntArrayObj [1, 2, 3, 4]]"
  using CalculateArrySum_leaves_heap [OF int_array_at_single, of "[1, 2, 3, 4]" None "[9, 9, 9, 9]"]
  by (simp add: int_array_at_single)

text \<open>The other two release modes do write the view back.\<close>

lemma ReleaseIntArrayElements_copies_back:
  assumes "k < length env" and "mode \<noteq> JNI_ABORT"
  shows "int_array_at (ReleaseIntArrayElements env (Some k) view mode) (Some k) = Some view"
  using assms
  by (cases mode) (simp_all add: ReleaseIntArrayElements_def int_array_at_def deref_def)

text \<open>
  Claim C10. When \<open>S\<close>, \<open>T\<close> and their concatenation are Java arrays, the sum of
  the concatenation is \<^const>\<open>calculateSum\<close> of the two sums; the empty array
  has the sum zero.
\<close>

theorem CalculateArrySum_append:
  assumes "int_array_at env arrayS = Some S"
    and "int_array_at env arrayT = Some T"
    and "int_array_at env arrayST = Some (S @ T)"
    and "length (S @ T) < 2 ^ 31"
  shows "(\<exists>v w env1 env2 env3.
            CalculateArrySum env thiz arrayS = Inr (v, env1)
            \<and> CalculateArrySum env thiz arrayT = Inr (w, env2)
            \<and> CalculateArrySum env thiz arrayST = Inr (calculateSum env thiz v w, env3))
         \<and> CalculateArrySum (env @ [IntArrayObj []]) thiz (Some (length env))
             = Inr (0, env @ [IntArrayObj []])"
proof -
  have s: "length S < 2 ^ 31" and t: "length T < 2 ^ 31"
    using assms(4) by simp_all
  have "CalculateArrySum env thiz arrayS = Inr (sum_list S, env)"
    using assms(1) s by (rule CalculateArrySum_sum_list)
  moreover have "CalculateArrySum env thiz arrayT = Inr (sum_list T, env)"
    using assms(2) t by (rule CalculateArrySum_sum_list)
  moreover have "CalculateArrySum env thiz arrayST = Inr (sum_list (S @ T), env)"
    using assms(3,4) by (rule CalculateArrySum_sum_list)
  moreover have "sum_list (S @ T) = calculateSum env thiz (sum_list S) (sum_list T)"
    by (simp add: calculateSum_def)
  moreover have "int_array_at (env @ [IntArrayObj []]) (Some (length env)) = Some []"
    by (simp add: int_array_at_def deref_def)
  then have "CalculateArrySum (env @ [IntArrayObj []]) thiz (Some (length env))
             = Inr (0, env @ [IntArrayObj []])"
    using CalculateArrySum_sum_list [of "env @ [IntArrayObj []]" "Some (length env)" "[]" thiz]
    by simp
  ultimately show ?thesis
    by simp
qed

theorem CalculateArrySum_append_witness:
  "int_array_at [IntArrayObj [1, 2], IntArrayObj [2147483647], IntArrayObj [1, 2, 2147483647]]
     (Some 0) = Some [1, 2]
   \<and> int_array_at [IntArrayObj [1, 2], IntArrayObj [2147483647], IntArrayObj [1, 2, 2147483647]]
     (Some 1) = Some [2147483647]
   \<and> int_array_at [IntArrayObj [1, 2], IntArrayObj [2147483647], IntArrayObj [1, 2, 2147483647]]
     (Some 2) = Some ([1, 2] @ [2147483647])
   \<and> length ([1, 2] @ [2147483647 :: jint]) < 2 ^ 31
   \<and> (\<exists>v w env1 env2 env3.
         CalculateArrySum
           [IntArrayObj [1, 2], IntArrayObj [2147483647], IntArrayObj [1, 2, 2147483647]]
           None (Some 0) = Inr (v, env1)
         \<and> CalculateArrySum
           [IntArrayObj [1, 2], IntArrayObj [2147483647], IntArrayObj [1, 2, 2147483647]]
           None (Some 1) = Inr (w, env2)
         \<and> CalculateArrySum
           [IntArrayObj [1, 2], IntArrayObj [2147483647], IntArrayObj [1, 2, 2147483647]]
           None (Some 2)
           = Inr (calculateSum
                   [IntArrayObj [1, 2], IntArrayObj [2147483647], IntArrayObj [1, 2, 2147483647]]
                   None v w, env3))"
proof -
  let ?env = "[IntArrayObj [1, 2], IntArrayObj [2147483647], IntArrayObj [1, 2, 2147483647]]"
  have a: "int_array_at ?env (Some 0) = Some [1, 2]"
    by (simp add: int_array_at_def deref_def)
  have b: "int_array_at ?env (Some 1) = Some [2147483647]"
    by (simp add: int_array_at_def deref_def)
  have c: "int_array_at ?env (Some 2) = Some ([1, 2] @ [2147483647])"
    by (simp add: int_array_at_def deref_def)
  have l: "length ([1, 2] @ [2147483647 :: jint]) < 2 ^ 31"
    by simp
  show ?thesis
    using CalculateArrySum_append [OF a b c l, of None] a b c l
    by blast
qed

subsection \<open>String reversal\<close>

lemma string_at_single: "string_at [StringObj cs] (Some 0) = Some cs"
  by (simp add: string_at_def deref_def)

lemma ReversesString_twice:
  assumes "string_at env input = Some s" and "list_all is_ascii s"
  shows "ReversesString (env @ [StringObj (rev s)]) thiz (Some (length env))
         = Inr (Some (Suc (length env)), env @ [StringObj (rev s), StringObj s])"
proof -
  have "list_all is_ascii (rev s)"
    using assms(2) by (simp add: list_all_iff)
  then show ?thesis
    using ReversesString_ascii [of "env @ [StringObj (rev s)]" "Some (length env)" "rev s" thiz]
    by (simp add: string_at_new)
qed

text \<open>
  Claim C2, amended. For every string \<open>s\<close> whose code units all lie between 1
  and 0x7F, the call returns a new string that is the reversal of \<open>s\<close>, with
  the length and the elements of \<open>s\<close>, and reversing the result gives \<open>s\<close>
  back.
\<close>

theorem ReversesString_reverses_ascii:
  assumes "string_at env input = Some s" and "list_all is_ascii s"
  shows "\<exists>r env' t. ReversesString env thiz input = Inr (r, env')
           \<and> string_at env' r = Some t
           \<and> t = rev s \<and> length t = length s \<and> mset t = mset s
           \<and> (\<exists>r2 env2. ReversesString env' thiz r = Inr (r2, env2)
                 \<and> string_at env2 r2 = Some s)"
proof -
  have one: "ReversesString env thiz input
             = Inr (Some (length env), env @ [StringObj (rev s)])"
    using assms by (rule ReversesString_ascii)
  have two: "ReversesString (env @ [StringObj (rev s)]) thiz (Some (length env))
             = Inr (Some (Suc (length env)), env @ [StringObj (rev s), StringObj s])"
    using assms by (rule ReversesString_twice)
  have again: "string_at (env @ [StringObj (rev s), StringObj s]) (Some (Suc (length env)))
              = Some s"
    by (simp add: string_at_def deref_def nth_append)
  show ?thesis
    using one two again string_at_new [of env "rev s"] by simp
qed

theorem ReversesString_reverses_ascii_witness:
  "string_at [StringObj (jstr ''hello'')] (Some 0) = Some (jstr ''hello'')
   \<and> list_all is_ascii (jstr ''hello'')
   \<and> (\<exists>r env'. ReversesString [StringObj (jstr ''hello'')] None (Some 0) = Inr (r, env')
         \<and> string_at env' r = Some (jstr ''olleh'')
         \<and> (\<exists>r2 env2. ReversesString env' None r = Inr (r2, env2)
               \<and> string_at env2 r2 = Some (jstr ''hello'')))"
proof -
  have h: "string_at [StringObj (jstr ''hello'')] (Some 0) = Some (jstr ''hello'')"
    by (rule string_at_single)
  have a: "list_all is_ascii (jstr ''hello'')"
    by (simp add: jstr_def is_ascii_def unat_code_unit)
  have r: "rev (jstr ''hello'') = jstr ''olleh''"
    by (simp add: jstr_def)
  show ?thesis
    using ReversesString_reverses_ascii [OF h a, of None] h a
    by (auto simp: r)
qed

text \<open>
  The claim as the spec has it, for every string, fails: the string of the one
  code unit 0xE9 is its own reversal, but its two bytes reversed are not
  modified UTF-8, and the call yields no string.
\<close>

theorem ReversesString_counterexample:
  "string_at [StringObj [0xE9]] (Some 0) = Some [0xE9]
   \<and> ReversesString [StringObj [0xE9]] None (Some 0) = Inl MalformedUTF
   \<and> ReversesString [StringObj [0xE9]] None (Some 0)
       \<noteq> Inr (Some 1, [StringObj [0xE9], StringObj (rev [0xE9])])"
proof -
  have h: "string_at [StringObj [0xE9]] (Some 0) = Some [0xE9]"
    by (rule string_at_single)
  have n: "\<not> list_all is_ascii [0xE9]"
    by (simp add: is_ascii_def)
  show ?thesis
    using ReversesString_non_ascii [OF h n, of None] h by simp
qed

subsection \<open>Attribute swap\<close>

lemma code_unit_unat_byte: "code_unit (unat b) = ucast b"
  by (simp add: code_unit_def)

lemma person_at_valid:
  assumes "person_at env p = Some (n, a)"
  shows "\<exists>k. p = Some k \<and> k < length env"
proof -
  obtain r where "deref env p = Inr (PersonObj r a)"
    using person_at_deref [OF assms] by blast
  then show ?thesis
    by (auto simp: deref_def split: option.splits if_splits)
qed

lemma swapPersonAttributes_person_at:
  assumes "person_at env person = Some (n, a)"
  shows "\<exists>r env'. swapPersonAttributes env thiz person = Inr (r, env')
           \<and> person_at env' r
               = Some (map ucast (to_string a), static_cast_int (length (utf_encode n)))"
proof -
  have "person_at (env @ [StringObj (map (\<lambda>b. code_unit (unat b)) (to_string a)),
                          PersonObj (Some (length env)) (static_cast_int (length (utf_encode n)))])
          (Some (Suc (length env)))
        = Some (map ucast (to_string a), static_cast_int (length (utf_encode n)))"
    by (simp add: person_at_new code_unit_unat_byte)
  then show ?thesis
    using swapPersonAttributes_run [OF assms, of thiz] by simp
qed

lemma to_string_30: "map ucast (to_string 30) = jstr ''30''"
  by (simp add: to_string_def digits_large [of 30] digits_small [of 3] jstr_def
      byte_of_def code_unit_def)

lemma person_at_pair:
  "person_at [StringObj cs, PersonObj (Some 0) a] (Some 1) = Some (cs, a)"
  by (simp add: person_at_def string_at_def deref_def)

text \<open>
  Claim C1, amended. For every input record the call returns a record whose
  name is the decimal string of the input's age, and whose age is the number
  of bytes of the input's name in modified UTF-8, cast to \<^verbatim>\<open>int\<close>. That number
  is the length of the name when all its code units lie between 1 and 0x7F.
  The witness is the case of the spec: Alice, 30 gives ``30'', 5.
\<close>

theorem swapPersonAttributes_returns:
  assumes "person_at env person = Some (n, a)"
  shows "(\<exists>r env'. swapPersonAttributes env thiz person = Inr (r, env')
            \<and> person_at env' r
                = Some (map ucast (to_string a), static_cast_int (length (utf_encode n))))
         \<and> decimal_int (to_string a) = sint a
         \<and> (list_all is_ascii n \<longrightarrow> length (utf_encode n) = length n)"
  using swapPersonAttributes_person_at [OF assms, of thiz]
  by (simp add: decimal_int_to_string length_utf_encode_ascii)

theorem swapPersonAttributes_returns_witness:
  "person_at [StringObj (jstr ''Alice''), PersonObj (Some 0) 30] (Some 1)
     = Some (jstr ''Alice'', 30)
   \<and> list_all is_ascii (jstr ''Alice'')
   \<and> (\<exists>r env'. swapPersonAttributes [StringObj (jstr ''Alice''), PersonObj (Some 0) 30]
                   None (Some 1) = Inr (r, env')
            \<and> person_at env' r = Some (jstr ''30'', 5))"
proof -
  have p: "person_at [StringObj (jstr ''Alice''), PersonObj (Some 0) 30] (Some 1)
           = Some (jstr ''Alice'', 30)"
    by (rule person_at_pair)
  have a: "list_all is_ascii (jstr ''Alice'')"
    by (simp add: jstr_def is_ascii_def unat_code_unit)
  have l: "length (jstr ''Alice'') = 5"
    by (simp add: jstr_def)
  show ?thesis
    using swapPersonAttributes_returns [OF p, of None] a p
    by (auto simp: to_string_30 l static_cast_int_def)
qed

text \<open>
  The claim as the spec has it, with the length of the name, fails: the name of
  the one code unit 0xE9 has length 1, and the returned age is 2.
\<close>

theorem swapPersonAttributes_length_counterexample:
  "person_at [StringObj [0xE9], PersonObj (Some 0) 30] (Some 1) = Some ([0xE9], 30)
   \<and> swapPersonAttributes [StringObj [0xE9], PersonObj (Some 0) 30] None (Some 1)
       = Inr (Some 3, [StringObj [0xE9], PersonObj (Some 0) 30,
                       StringObj (jstr ''30''), PersonObj (Some 2) 2])
   \<and> person_at [StringObj [0xE9], PersonObj (Some 0) 30,
                 StringObj (jstr ''30''), PersonObj (Some 2) 2] (Some 3)
       = Some (jstr ''30'', 2)
   \<and> (2 :: jint) \<noteq> of_nat (length [0xE9 :: jchar])"
proof -
  have p: "person_at [StringObj [0xE9], PersonObj (Some 0) 30] (Some 1) = Some ([0xE9], 30)"
    by (rule person_at_pair)
  have n: "map (\<lambda>b. code_unit (unat b)) (to_string 30) = jstr ''30''"
    using to_string_30 by (simp add: code_unit_unat_byte)
  have l: "length (utf_encode [0xE9]) = 2"
    by (simp add: utf_encode_def utf_encode_char_def)
  have q: "person_at [StringObj [0xE9], PersonObj (Some 0) 30,
                 StringObj (jstr ''30''), PersonObj (Some 2) 2] (Some 3)
       = Some (jstr ''30'', 2)"
    by (simp add: person_at_def string_at_def deref_def)
  show ?thesis
    using swapPersonAttributes_run [OF p, of None] p q
    by (simp add: n l static_cast_int_def)
qed

text \<open>
  Claim C6. The call leaves the input record as it was: after it the input
  reference denotes the same two fields, and every object of the old heap is
  unchanged. The returned reference differs from the input, did not denote
  anything before the call, and denotes a record after it.
\<close>

theorem swapPersonAttributes_fresh:
  assumes "person_at env person = Some (n, a)"
  shows "\<exists>r env' m b. swapPersonAttributes env thiz person = Inr (r, env')
           \<and> person_at env' person = Some (n, a)
           \<and> take (length env) env' = env
           \<and> r \<noteq> person
           \<and> deref env r = Inl NullReference
           \<and> person_at env' r = Some (m, b)"
proof -
  obtain k where k: "person = Some k" "k < length env"
    using person_at_valid [OF assms] by blast
  let ?env' = "env @ [StringObj (map (\<lambda>b. code_unit (unat b)) (to_string a)),
                      PersonObj (Some (length env)) (static_cast_int (length (utf_encode n)))]"
  have run: "swapPersonAttributes env thiz person = Inr (Some (Suc (length env)), ?env')"
    using assms by (rule swapPersonAttributes_run)
  have kept: "person_at ?env' person = Some (n, a)"
    using assms by (rule person_at_append)
  have new: "deref env (Some (Suc (length env))) = Inl NullReference"
    by (simp add: deref_def)
  have other: "Some (Suc (length env)) \<noteq> person"
    using k by simp
  show ?thesis
    using run kept new other person_at_new [of env] by simp
qed

theorem swapPersonAttributes_fresh_witness:
  "person_at [StringObj (jstr ''Alice''), PersonObj (Some 0) 30] (Some 1)
     = Some (jstr ''Alice'', 30)
   \<and> (\<exists>r env' m b.
         swapPersonAttributes [StringObj (jstr ''Alice''), PersonObj (Some 0) 30] None (Some 1)
           = Inr (r, env')
         \<and> person_at env' (Some 1) = Some (jstr ''Alice'', 30)
         \<and> take 2 env' = [StringObj (jstr ''Alice''), PersonObj (Some 0) 30]
         \<and> r \<noteq> Some 1
         \<and> deref [StringObj (jstr ''Alice''), PersonObj (Some 0) 30] r = Inl NullReference
         \<and> person_at env' r = Some (m, b))"
proof -
  have p: "person_at [StringObj (jstr ''Alice''), PersonObj (Some 0) 30] (Some 1)
           = Some (jstr ''Alice'', 30)"
    by (rule person_at_pair)
  have l: "length [StringObj (jstr ''Alice''), PersonObj (Some 0) 30] = 2"
    by simp
  show ?thesis
    using swapPersonAttributes_fresh [OF p, of None, unfolded l] p
    by blast
qed

lemma length_utf_encode_sum:
  "length (utf_encode cs)
   = (\<Sum>c\<leftarrow>cs. if is_ascii c then 1 else if unat c \<le> 0x7FF then 2 else 3)"
  by (induction cs) (simp_all add: utf_encode_Nil utf_encode_Cons length_utf_encode_char)

lemma sint_static_cast_int: "k < 2 ^ 31 \<Longrightarrow> sint (static_cast_int k) = int k"
  by (simp add: static_cast_int_def sint_of_nat_small)

lemma length_utf_encode_replicate_E9:
  "length (utf_encode (replicate k (0xE9 :: jchar))) = 2 * k"
  by (induction k) (simp_all add: utf_encode_Nil utf_encode_Cons utf_encode_char_def)

lemma sint_static_cast_int_mod:
  "sint (static_cast_int k) mod 2 ^ 32 = int k mod 2 ^ 32"
proof -
  have u: "unat (of_nat k :: jint) = k mod 2 ^ 32"
    by (simp add: unat_of_nat)
  have "sint (static_cast_int k) mod 2 ^ 32 = uint (of_nat k :: jint)"
    unfolding static_cast_int_def by (rule sint_mod_2p32)
  also have "\<dots> = int (unat (of_nat k :: jint))"
    by (rule uint_nat)
  also have "\<dots> = int (k mod 2 ^ 32)"
    by (simp only: u)
  also have "\<dots> = int k mod 2 ^ 32"
    by (simp add: zmod_int)
  finally show ?thesis .
qed

text \<open>
  Claim C8, amended. The age of the returned record is the number of bytes of
  the input's name in the encoding of \<^verbatim>\<open>GetStringUTFChars\<close> (one byte for a
  code unit between 1 and 0x7F, two or three for any other), cast to \<^verbatim>\<open>int\<close>:
  the value of the signed 32-bit range congruent to the byte count modulo
  \<open>2\<^sup>3\<^sup>2\<close>. For a name of fewer than \<open>2\<^sup>3\<^sup>1\<close> bytes the age is the byte
  count, and then, when the name has a code unit of more than one byte, the
  age exceeds the count of code units.
\<close>

theorem swapPersonAttributes_age_is_cast_byte_count:
  assumes "person_at env person = Some (n, a)"
  shows "\<exists>r env' m g. swapPersonAttributes env thiz person = Inr (r, env')
           \<and> person_at env' r = Some (m, g)
           \<and> g = static_cast_int (length (utf_encode n))
           \<and> sint g mod 2 ^ 32 = int (length (utf_encode n)) mod 2 ^ 32
           \<and> length (utf_encode n)
               = (\<Sum>c\<leftarrow>n. if is_ascii c then 1 else if unat c \<le> 0x7FF then 2 else 3)
           \<and> (length (utf_encode n) < 2 ^ 31 \<longrightarrow>
                sint g = int (length (utf_encode n))
                \<and> (\<not> list_all is_ascii n \<longrightarrow> int (length n) < sint g))"
proof -
  let ?g = "static_cast_int (length (utf_encode n))"
  obtain r env' where run: "swapPersonAttributes env thiz person = Inr (r, env')"
    and res: "person_at env' r = Some (map ucast (to_string a), ?g)"
    using swapPersonAttributes_person_at [OF assms, of thiz] by blast
  have cong: "sint ?g mod 2 ^ 32 = int (length (utf_encode n)) mod 2 ^ 32"
    by (rule sint_static_cast_int_mod)
  have small: "length (utf_encode n) < 2 ^ 31 \<longrightarrow>
      sint ?g = int (length (utf_encode n))
      \<and> (\<not> list_all is_ascii n \<longrightarrow> int (length n) < sint ?g)"
  proof
    assume "length (utf_encode n) < 2 ^ 31"
    then have eq: "sint ?g = int (length (utf_encode n))"
      by (rule sint_static_cast_int)
    show "sint ?g = int (length (utf_encode n))
          \<and> (\<not> list_all is_ascii n \<longrightarrow> int (length n) < sint ?g)"
      using eq length_utf_encode_gt [of n] by simp
  qed
  show ?thesis
    using run res cong small length_utf_encode_sum [of n] by blast
qed

theorem swapPersonAttributes_age_is_cast_byte_count_witness:
  "person_at [StringObj [0x4A, 0xE9, 0x20AC], PersonObj (Some 0) 30] (Some 1)
     = Some ([0x4A, 0xE9, 0x20AC], 30)
   \<and> length (utf_encode [0x4A, 0xE9, 0x20AC]) < 2 ^ 31
   \<and> \<not> list_all is_ascii [0x4A, 0xE9, 0x20AC]
   \<and> length (utf_encode [0x4A, 0xE9, 0x20AC]) = 6
   \<and> length [0x4A, 0xE9, 0x20AC :: jchar] = 3
   \<and> (\<exists>r env' m g.
         swapPersonAttributes [StringObj [0x4A, 0xE9, 0x20AC], PersonObj (Some 0) 30]
           None (Some 1) = Inr (r, env')
         \<and> person_at env' r = Some (m, g)
         \<and> g = 6 \<and> sint g = 6 \<and> 3 < sint g)"
proof -
  have p: "person_at [StringObj [0x4A, 0xE9, 0x20AC], PersonObj (Some 0) 30] (Some 1)
           = Some ([0x4A, 0xE9, 0x20AC], 30)"
    by (rule person_at_pair)
  have l: "length (utf_encode [0x4A, 0xE9, 0x20AC]) = 6"
    by (simp add: utf_encode_def utf_encode_char_def)
  have n: "\<not> list_all is_ascii [0x4A, 0xE9, 0x20AC]"
    by (simp add: is_ascii_def)
  have c: "static_cast_int 6 = 6"
    by (simp add: static_cast_int_def)
  obtain r env' m g where
    "swapPersonAttributes [StringObj [0x4A, 0xE9, 0x20AC], PersonObj (Some 0) 30]
       None (Some 1) = Inr (r, env')"
    "person_at env' r = Some (m, g)" "g = 6"
    using swapPersonAttributes_age_is_cast_byte_count [OF p, of None] by (auto simp: l c)
  then show ?thesis
    using p l n by auto
qed

text \<open>
  The claim for every record fails: a name of \<open>2\<^sup>3\<^sup>0 + 1\<close> copies of the code
  unit 0xE9 has 2147483650 bytes, the cast gives the age -2147483646, which is
  neither the byte count nor above the count of code units.
\<close>

theorem swapPersonAttributes_age_counterexample:
  "person_at [StringObj (replicate 1073741825 0xE9), PersonObj (Some 0) 30] (Some 1)
     = Some (replicate 1073741825 0xE9, 30)
   \<and> length (utf_encode (replicate 1073741825 0xE9)) = 2147483650
   \<and> swapPersonAttributes [StringObj (replicate 1073741825 0xE9), PersonObj (Some 0) 30]
         None (Some 1)
       = Inr (Some 3, [StringObj (replicate 1073741825 0xE9), PersonObj (Some 0) 30,
                       StringObj (jstr ''30''), PersonObj (Some 2) (- 2147483646)])
   \<and> person_at [StringObj (replicate 1073741825 0xE9), PersonObj (Some 0) 30,
                 StringObj (jstr ''30''), PersonObj (Some 2) (- 2147483646)] (Some 3)
       = Some (jstr ''30'', - 2147483646)
   \<and> sint (- 2147483646 :: jint) = - 2147483646
   \<and> sint (- 2147483646 :: jint) \<noteq> 2147483650
   \<and> \<not> int (length (replicate 1073741825 (0xE9 :: jchar))) < sint (- 2147483646 :: jint)"
proof -
  have p: "person_at [StringObj (replicate 1073741825 0xE9), PersonObj (Some 0) 30] (Some 1)
           = Some (replicate 1073741825 0xE9, 30)"
    by (rule person_at_pair)
  have l: "length (utf_encode (replicate 1073741825 0xE9)) = 2147483650"
    by (simp add: length_utf_encode_replicate_E9)
  have c: "static_cast_int 2147483650 = - 2147483646"
    by (simp add: static_cast_int_def)
  have n: "map (\<lambda>b. code_unit (unat b)) (to_string 30) = jstr ''30''"
    using to_string_30 by (simp add: code_unit_unat_byte)
  have q: "person_at [StringObj (replicate 1073741825 0xE9), PersonObj (Some 0) 30,
                 StringObj (jstr ''30''), PersonObj (Some 2) (- 2147483646)] (Some 3)
       = Some (jstr ''30'', - 2147483646)"
    by (simp add: person_at_def string_at_def deref_def)
  have s: "sint (- 2147483646 :: jint) = - 2147483646"
    by simp
  show ?thesis
    using swapPersonAttributes_run [OF p, of None] p q l s
    by (simp add: n c)
qed

subsection \<open>Determinism\<close>



lemma swapPersonAttributes_value:
  assumes "person_at env person = Some (n, a)"
  shows "map_sum id (\<lambda>(r, env'). person_at env' r) (swapPersonAttributes env thiz person)
         = Inr (Some (map ucast (to_string a), static_cast_int (length (utf_encode n))))"
  by (simp add: swapPersonAttributes_run [OF assms] person_at_new code_unit_unat_byte)



text \<open>
  The second of two calls in a row starts from the heap the first one left.
  The input still denotes the same string there, and the same string comes
  back.
\<close>

lemma ReversesString_repeat:
  assumes "string_at env input = Some s"
    and "ReversesString env thiz input = Inr (r, env')"
  shows "\<exists>r2 env2. ReversesString env' thiz input = Inr (r2, env2)
           \<and> string_at env2 r2 = string_at env' r"
proof -
  obtain cs where d: "utf_decode (rev (utf_encode s)) = Some cs"
    and e: "env' = env @ [StringObj cs]" and r: "r = Some (length env)"
    using assms(2)
    by (auto simp: ReversesString_buffer [OF assms(1)] NewStringUTF_rev_encode
        split: option.splits)
  have "string_at env' input = Some s"
    unfolding e using assms(1) by (rule string_at_append)
  then have "ReversesString env' thiz input = Inr (Some (length env'), env' @ [StringObj cs])"
    by (simp add: ReversesString_buffer NewStringUTF_rev_encode d)
  then show ?thesis
    by (simp add: e r string_at_def deref_def nth_append)
qed

lemma swapPersonAttributes_repeat:
  assumes "person_at env person = Some (n, a)"
    and "swapPersonAttributes env thiz person = Inr (r, env')"
  shows "\<exists>r2 env2. swapPersonAttributes env' thiz person = Inr (r2, env2)
           \<and> person_at env2 r2 = person_at env' r"
proof -
  have e: "\<exists>ext. env' = env @ ext"
    using assms(2) by (auto simp: swapPersonAttributes_run [OF assms(1)])
  then have again: "person_at env' person = Some (n, a)"
    using person_at_append [OF assms(1)] by blast
  have "map_sum id (\<lambda>(r, env'). person_at env' r) (swapPersonAttributes env thiz person)
        = map_sum id (\<lambda>(r, env'). person_at env' r) (swapPersonAttributes env' thiz person)"
    by (simp only: swapPersonAttributes_value [OF assms(1)] swapPersonAttributes_value [OF again])
  then show ?thesis
    using swapPersonAttributes_run [OF again, of thiz] assms(2) by simp
qed

end
